theory Spec2Isabelle
  imports Complex_Main
begin

section \<open>Scalars\<close>

text \<open>
  The engine \<open>DIIS<T>\<close> is instantiated at \<open>T = double\<close> and \<open>T = dcomplex\<close>.
  Scalars are modelled in exact arithmetic: \<open>double\<close> as \<^typ>\<open>real\<close> and
  \<open>dcomplex\<close> as \<^typ>\<open>complex\<close>.  Rounding and overflow of IEEE doubles
  are outside the model: a sum or a product here is the exact one, where the program
  computes the nearest double, or an infinity.  Statements about values are therefore
  statements about the program in exact arithmetic; they carry over to the program as it
  runs wherever no operation rounds, as in the real scenarios below.  What
  depends on the scalar type is collected in a record: the conjugation applied by the inner
  product and the magnitude by which the dense solver selects its pivot.
\<close>

record 'a scalar =
  sconj :: "'a \<Rightarrow> 'a"
  smag :: "'a \<Rightarrow> real"

definition double_ops :: "real scalar" where
  "double_ops = \<lparr>sconj = (\<lambda>x. x), smag = (\<lambda>x. \<bar>x\<bar>)\<rparr>"

definition dcomplex_ops :: "complex scalar" where
  "dcomplex_ops = \<lparr>sconj = cnj, smag = (\<lambda>z. \<bar>Re z\<bar> + \<bar>Im z\<bar>)\<rparr>"

section \<open>Inner product\<close>

text \<open>
  Modelled from the spec: \<open>InnerProd<T>(N, X, INCX, Y, INCY)\<close> is called by
  \<open>DIIS<T>::extrapolate\<close> (extrapolate.hpp, line 106) and is declared in a header that is
  not among the sources.  The spec (4.1) gives its contract: the sum over \<open>k = 0..N-1\<close> of
  \<open>conj(x_k) * y_k\<close> in the complex case and of \<open>x_k * y_k\<close> in the real case, each
  buffer read with its own stride, accumulated from left to right.  A buffer is a list;
  \<open>in_bounds\<close> says that every element the call reads exists (a read past the end of a
  buffer is undefined behaviour in the source).
\<close>

definition in_bounds :: "nat \<Rightarrow> 'a list \<Rightarrow> nat \<Rightarrow> bool" where
  "in_bounds n x inc = (n = 0 \<or> (n - 1) * inc < length x)"

definition InnerProd ::
  "'a::field scalar \<Rightarrow> nat \<Rightarrow> 'a list \<Rightarrow> nat \<Rightarrow> 'a list \<Rightarrow> nat \<Rightarrow> 'a" where
  "InnerProd ops n x incx y incy =
     foldl (\<lambda>acc k. acc + sconj ops (x ! (k * incx)) * y ! (k * incy)) 0 [0..<n]"

section \<open>The DIIS engine\<close>

text \<open>
  The error metrics are raw pointers \<open>T*\<close> into memory owned by the caller.  Memory
  is a store from addresses to the buffers allocated there; the engine keeps addresses.
\<close>

type_synonym addr = nat

type_synonym 'a memory = "addr \<Rightarrow> 'a list option"

record 'a DIIS =
  nExtrap :: nat
  nMat :: nat
  OSize :: nat
  coeffs :: "'a list"
  errorMetric :: "addr list list"

text \<open>The constructor: \<open>coeffs.resize(nExtrap+1)\<close> value-initialises the new entries.\<close>

definition DIIS_new :: "nat \<Rightarrow> nat \<Rightarrow> nat \<Rightarrow> addr list list \<Rightarrow> 'a::zero DIIS" where
  "DIIS_new n m sz em =
     \<lparr>nExtrap = n, nMat = m, OSize = sz, coeffs = replicate (n + 1) 0, errorMetric = em\<rparr>"

text \<open>\<open>errorMetric[k][i]\<close>, dereferenced.\<close>

definition metric :: "'a memory \<Rightarrow> 'a DIIS \<Rightarrow> nat \<Rightarrow> nat \<Rightarrow> 'a list" where
  "metric mem st k i = (case mem (errorMetric st ! k ! i) of Some b \<Rightarrow> b | None \<Rightarrow> [])"

text \<open>
  The build loop reads \<open>errorMetric[k][i]\<close> for every \<open>i < nMat\<close> and \<open>k < nExtrap\<close>
  and hands it to the inner product with length \<open>OSize\<close> and stride 1.  Nothing checks
  the shape of the history: an index past the end of a vector, an address with no buffer or
  a buffer shorter than \<open>OSize\<close> is undefined behaviour.  \<open>readable\<close> holds when none
  of these reads is out of range.
\<close>

definition readable :: "'a memory \<Rightarrow> 'a DIIS \<Rightarrow> bool" where
  "readable mem st =
     list_all (\<lambda>i. list_all (\<lambda>k.
         k < length (errorMetric st) \<and> i < length (errorMetric st ! k)
         \<and> (case mem (errorMetric st ! k ! i) of
              None \<Rightarrow> False
            | Some b \<Rightarrow> in_bounds (OSize st) b 1))
       [0..<nExtrap st]) [0..<nMat st]"

subsection \<open>Assembly of the bordered matrix\<close>

text \<open>
  \<open>B\<close> is a flat vector of \<open>N*N\<close> scalars, entry \<open>(r, c)\<close> at index \<open>r + c*N\<close>.
  Each loop of the source is a \<open>fold\<close> over its index range (lines 103 to 119);
  the loops over \<open>k\<close>, \<open>j\<close> and \<open>i\<close> of the build are \<open>build_k\<close>, \<open>build_j\<close>
  and \<open>build_B\<close>, those of the mirror step \<open>mirror_k\<close> and \<open>mirror_B\<close>.
\<close>

definition build_k ::
  "'a::field scalar \<Rightarrow> 'a memory \<Rightarrow> 'a DIIS \<Rightarrow> nat \<Rightarrow> nat \<Rightarrow> nat \<Rightarrow> 'a list \<Rightarrow> 'a list" where
  "build_k ops mem st N i j =
     fold (\<lambda>k B.
         B[k + j * N := B ! (k + j * N)
             + InnerProd ops (OSize st) (metric mem st k i) 1 (metric mem st j i) 1])
       [0..<Suc j]"

definition build_j ::
  "'a::field scalar \<Rightarrow> 'a memory \<Rightarrow> 'a DIIS \<Rightarrow> nat \<Rightarrow> nat \<Rightarrow> 'a list \<Rightarrow> 'a list" where
  "build_j ops mem st N i = fold (build_k ops mem st N i) [0..<nExtrap st]"

definition build_B ::
  "'a::field scalar \<Rightarrow> 'a memory \<Rightarrow> 'a DIIS \<Rightarrow> nat \<Rightarrow> 'a list \<Rightarrow> 'a list" where
  "build_B ops mem st N = fold (build_j ops mem st N) [0..<nMat st]"

text \<open>
  The term that line 106 adds to \<open>B[k + j*N]\<close> for the tracked matrix \<open>i\<close>, and the
  entry of the Gram matrix as the data model of the spec defines it: the sum of these terms
  over the tracked matrices.
\<close>

definition gterm :: "'a::field scalar \<Rightarrow> 'a memory \<Rightarrow> 'a DIIS \<Rightarrow> nat \<Rightarrow> nat \<Rightarrow> nat \<Rightarrow> 'a" where
  "gterm ops mem st i k j = InnerProd ops (OSize st) (metric mem st k i) 1 (metric mem st j i) 1"

definition gram :: "'a::field scalar \<Rightarrow> 'a memory \<Rightarrow> 'a DIIS \<Rightarrow> nat \<Rightarrow> nat \<Rightarrow> 'a" where
  "gram ops mem st k j = sum_list (map (\<lambda>i. gterm ops mem st i k j) [0..<nMat st])"

definition mirror_k :: "nat \<Rightarrow> nat \<Rightarrow> 'a list \<Rightarrow> 'a list" where
  "mirror_k N j = fold (\<lambda>k B. B[j + k * N := B ! (k + j * N)]) [0..<j]"

definition mirror_B :: "nat \<Rightarrow> nat \<Rightarrow> 'a list \<Rightarrow> 'a list" where
  "mirror_B n N = fold (mirror_k N) [0..<n]"

definition border_B :: "nat \<Rightarrow> nat \<Rightarrow> 'a::field list \<Rightarrow> 'a list" where
  "border_B n N B0 =
     (fold (\<lambda>l B. B[n + l * N := - 1, l + n * N := - 1]) [0..<n] B0)[n + n * N := 0]"

definition assemble :: "'a::field scalar \<Rightarrow> 'a memory \<Rightarrow> 'a DIIS \<Rightarrow> 'a list" where
  "assemble ops mem st =
     (let N = nExtrap st + 1
      in border_B (nExtrap st) N
           (mirror_B (nExtrap st) N (build_B ops mem st N (replicate (N * N) 0))))"

text \<open>The right-hand side: \<open>fill_n(&coeffs[0],N,0.)\<close>, then \<open>coeffs[nExtrap] = -1.0\<close>.\<close>

definition rhs :: "nat \<Rightarrow> 'a::field list" where
  "rhs n = (replicate (n + 1) 0)[n := - 1]"

subsection \<open>The dense solver\<close>

text \<open>
  Modelled from the spec: \<open>dgesv_\<close> and \<open>zgesv_\<close> (lines 130 and 133) belong to
  the linear-algebra backend and are not among the sources.  The spec (4.2 steps 6 and 7,
  and 6) describes the capability: solve the dense system \<open>B x = coeffs\<close> in place by
  elimination with partial pivoting, and report a status that is non-zero when the matrix is
  singular.  The model eliminates column by column on the rows of the system, each row
  carrying its right-hand side: the pivot of a column is the first entry of largest
  magnitude, the pivot row is exchanged with the top row, and an exactly zero pivot in
  column \<open>k\<close> (counted from 1) is the status.  On success the triangular system is solved
  by back substitution.  The arithmetic is exact, so the status is zero exactly when the
  matrix is nonsingular; the backend rounds, and its status and solution can differ from
  these.  \<open>extrapolate_with\<close> below takes the backend as a parameter for what holds of
  any solver.
\<close>

type_synonym 'a row = "'a list \<times> 'a"

definition lead :: "'a::zero row \<Rightarrow> 'a" where
  "lead r = (case fst r of [] \<Rightarrow> 0 | c # _ \<Rightarrow> c)"

fun iamax :: "real list \<Rightarrow> nat" where
  "iamax [] = 0"
| "iamax [x] = 0"
| "iamax (x # xs) = (let p = iamax xs in if xs ! p \<le> x then 0 else Suc p)"

definition reduce :: "'a::field row \<Rightarrow> 'a row \<Rightarrow> 'a row" where
  "reduce pr r =
     (let m = lead r / lead pr
      in (map2 (\<lambda>a b. a - m * b) (tl (fst r)) (tl (fst pr)), snd r - m * snd pr))"

function elim :: "'a::field scalar \<Rightarrow> nat \<Rightarrow> 'a row list \<Rightarrow> nat + 'a row list" where
  "elim ops k [] = Inr []"
| "elim ops k (r # rs) =
     (let p = iamax (map (\<lambda>q. smag ops (lead q)) (r # rs));
          pr = (r # rs) ! p;
          rest = (if p = 0 then rs else rs[p - 1 := r])
      in if lead pr = 0 then Inl (k + 1)
         else case elim ops (k + 1) (map (reduce pr) rest) of
                Inl i \<Rightarrow> Inl i
              | Inr tri \<Rightarrow> Inr (pr # tri))"
  by pat_completeness auto
termination
  by (relation "measure (\<lambda>(ops, k, rows). length rows)") auto

definition dot :: "'a::field list \<Rightarrow> 'a list \<Rightarrow> 'a" where
  "dot cs xs = sum_list (map2 (\<lambda>a b. a * b) cs xs)"

fun backsub :: "'a::field row list \<Rightarrow> 'a list" where
  "backsub [] = []"
| "backsub (r # tri) =
     (let xs = backsub tri in (snd r - dot (tl (fst r)) xs) / lead r # xs)"

text \<open>\<open>sat x r\<close>: the vector \<open>x\<close> satisfies the equation of the row \<open>r\<close>.\<close>

definition sat :: "'a::field list \<Rightarrow> 'a row \<Rightarrow> bool" where
  "sat x r = (dot (fst r) x = snd r)"

text \<open>
  \<open>gesv N A b\<close>: the matrix \<open>A\<close> is a flat vector with leading dimension \<open>N\<close>, as
  \<open>extrapolate\<close> passes it; the result is the status \<open>INFO\<close> and the contents of the
  right-hand side array afterwards (the solution when \<open>INFO = 0\<close>).
\<close>

definition rows_of :: "nat \<Rightarrow> 'a list \<Rightarrow> 'a list \<Rightarrow> 'a row list" where
  "rows_of N A b = map (\<lambda>r. (map (\<lambda>c. A ! (r + c * N)) [0..<N], b ! r)) [0..<N]"

definition gesv :: "'a::field scalar \<Rightarrow> nat \<Rightarrow> 'a list \<Rightarrow> 'a list \<Rightarrow> int \<times> 'a list" where
  "gesv ops N A b =
     (case elim ops 0 (rows_of N A b) of
        Inl i \<Rightarrow> (int i, b)
      | Inr tri \<Rightarrow> (0, backsub tri))"

subsection \<open>extrapolate\<close>

text \<open>
  \<open>DIIS<T>::extrapolate\<close> (lines 93 to 143) on the state made of the caller's memory and
  the engine.  The result is \<open>None\<close> where the source has undefined behaviour:
  \<open>int N = nExtrap + 1\<close> and the vector size \<open>N*N\<close> are \<open>int\<close> arithmetic, so
  \<open>N*N\<close> must not exceed \<open>2^31 - 1\<close>; the history must be readable; and
  \<open>coeffs\<close> must hold the \<open>N\<close> entries that \<open>fill_n\<close> writes.  Otherwise the
  result is the returned boolean \<open>!InvFail\<close>, the engine with \<open>coeffs\<close> overwritten
  in its first \<open>N\<close> entries, and the memory.
\<close>

definition extrapolate ::
  "'a::field scalar \<Rightarrow> 'a memory \<Rightarrow> 'a DIIS \<Rightarrow> (bool \<times> 'a DIIS \<times> 'a memory) option" where
  "extrapolate ops mem st =
     (let N = nExtrap st + 1
      in if 2147483647 < N * N \<or> \<not> readable mem st \<or> length (coeffs st) < N then None
         else
           let B = assemble ops mem st;
               (INFO, x) = gesv ops N B (rhs (nExtrap st));
               InvFail = (INFO \<noteq> 0)
           in Some (\<not> InvFail, st\<lparr>coeffs := x @ drop N (coeffs st)\<rparr>, mem))"


text \<open>What a call returned, and the coefficients it left, when it is defined.\<close>

definition returned :: "(bool \<times> 'a DIIS \<times> 'a memory) option \<Rightarrow> bool option" where
  "returned res = map_option fst res"

definition coeffs_after :: "(bool \<times> 'a DIIS \<times> 'a memory) option \<Rightarrow> 'a list option" where
  "coeffs_after res = map_option (\<lambda>(ok, st, mem). coeffs st) res"

subsection \<open>Histories of the scenarios\<close>

text \<open>
  Engines built by the constructor on a memory that holds the error metrics at the
  addresses 0 and 1: one slot with the metric \<open>[1]\<close>; the orthonormal scenario
  \<open>e0 = [1,0]\<close>, \<open>e1 = [0,1]\<close>; the parallel scenario \<open>e0 = [1,0]\<close>,
  \<open>e1 = [2,0]\<close>; two slots holding the same metric; and a complex history
  \<open>e0 = [1]\<close>, \<open>e1 = [\<i>]\<close>.
\<close>

definition mem_one :: "real memory" where
  "mem_one = [0 \<mapsto> [1]]"

definition st_one :: "real DIIS" where
  "st_one = DIIS_new 1 1 1 [[0]]"

definition mem_orth :: "real memory" where
  "mem_orth = [0 \<mapsto> [1, 0], 1 \<mapsto> [0, 1]]"



definition st_two :: "real DIIS" where
  "st_two = DIIS_new 2 1 2 [[0], [1]]"

definition mem_cplx :: "complex memory" where
  "mem_cplx = [0 \<mapsto> [1], 1 \<mapsto> [\<i>]]"

definition st_cplx :: "complex DIIS" where
  "st_cplx = DIIS_new 2 1 1 [[0], [1]]"

definition mem_ci :: "complex memory" where
  "mem_ci = [0 \<mapsto> [\<i>]]"

definition st_ci :: "complex DIIS" where
  "st_ci = DIIS_new 1 1 1 [[0]]"



section \<open>SCF options\<close>

text \<open>
  \<open>CQSCFOptions\<close> (scfopts.cxx) reads the \<open>SCF\<close> section of the input file into
  \<open>ss.scfControls\<close>.  The controls are a record of the fields the function assigns;
  \<open>double\<close> fields are reals, of which the function only tests \<open>dampStartParam == 0.\<close>.
  The enumeration of the DIIS algorithms is declared outside the sources and the function
  names only \<open>NONE\<close>; every other enumerator is \<open>ALG n\<close>.
\<close>

datatype SCF_GUESS = CORE | SAD | RANDOM

datatype DIIS_ALG = NONE | ALG nat

record SCFControls =
  eneConvTol :: real
  denConvTol :: real
  maxSCFIter :: nat
  doIncFock :: bool
  nIncFock :: nat
  guess :: SCF_GUESS
  doExtrap :: bool
  diisAlg :: DIIS_ALG
  nKeep :: nat
  doDamp :: bool
  dampStartParam :: real
  dampError :: real

text \<open>
  The input file is used through \<open>containsSection\<close> and \<open>getData<T>\<close>, which throws
  when the key is absent or its value does not parse as \<open>T\<close>; each instance of
  \<open>getData\<close> is a partial function of the key.  Every read is wrapped in the macro
  \<open>OPTOPT\<close>, which runs its argument and swallows whatever it throws, so an assignment
  whose \<open>getData\<close> throws does not happen.
\<close>

record CQInputFile =
  containsSection :: "string \<Rightarrow> bool"
  getData_bool :: "string \<Rightarrow> bool option"
  getData_double :: "string \<Rightarrow> real option"
  getData_size_t :: "string \<Rightarrow> nat option"
  getData_string :: "string \<Rightarrow> string option"

definition OPTOPT :: "'v option \<Rightarrow> ('v \<Rightarrow> 's \<Rightarrow> 's) \<Rightarrow> 's \<Rightarrow> 's" where
  "OPTOPT rd assign s = (case rd of None \<Rightarrow> s | Some v \<Rightarrow> assign v s)"

text \<open>
  The perturbation is the list of the fields added to it.  \<open>CErr\<close> ends the run with
  a message; \<open>std::stod\<close> throws on a token that is not a number, outside any
  \<open>OPTOPT\<close>.  Both are results \<open>Inl\<close>.  The tokeniser \<open>split\<close> and \<open>stod\<close>
  are parameters of the model.
\<close>

datatype EMFieldTyp = Electric | Magnetic

type_synonym cart_t = "real \<times> real \<times> real"

type_synonym EMPerturbation = "(EMFieldTyp \<times> cart_t) list"

datatype error = CErr string | StodThrows

definition handleField ::
  "(string \<Rightarrow> string list) \<Rightarrow> (string \<Rightarrow> real option) \<Rightarrow> CQInputFile \<Rightarrow> EMPerturbation
     \<Rightarrow> error + EMPerturbation" where
  "handleField split stod input pert =
     (let fieldStr = OPTOPT (getData_string input ''SCF.FIELD'') (\<lambda>v s. v) []
      in if fieldStr = [] then Inr pert
         else
           let tokens = split fieldStr
           in if length tokens < 4
              then Inl (CErr (fieldStr @ ''is not a valid SCF Field specification''))
              else
                let fieldTypeStr = tokens ! 0
                in if fieldTypeStr = ''ELECTRIC'' then
                     (if length tokens = 4 then
                        (case (stod (tokens ! 1), stod (tokens ! 2), stod (tokens ! 3)) of
                           (Some x, Some y, Some z) \<Rightarrow> Inr (pert @ [(Electric, (x, y, z))])
                         | _ \<Rightarrow> Inl StodThrows)
                      else Inl (CErr ''Non Dipole fields NYI''))
                   else if fieldTypeStr = ''MAGNETIC'' then Inl (CErr ''Magnetic Fields NYI'')
                   else Inl (CErr (fieldTypeStr @ ''not a valid Field type'')))"

definition CQSCFOptions ::
  "(string \<Rightarrow> string list) \<Rightarrow> (string \<Rightarrow> real option) \<Rightarrow> CQInputFile \<Rightarrow> SCFControls
     \<Rightarrow> EMPerturbation \<Rightarrow> error + SCFControls \<times> EMPerturbation" where
  "CQSCFOptions split stod input ss pert =
     (if \<not> containsSection input ''SCF'' then Inr (ss, pert)
      else
        let ss = OPTOPT (getData_double input ''SCF.ENETOL'') (\<lambda>v s. s\<lparr>eneConvTol := v\<rparr>) ss;
            ss = OPTOPT (getData_double input ''SCF.DENTOL'') (\<lambda>v s. s\<lparr>denConvTol := v\<rparr>) ss;
            ss = OPTOPT (getData_size_t input ''SCF.MAXITER'') (\<lambda>v s. s\<lparr>maxSCFIter := v\<rparr>) ss;
            ss = OPTOPT (getData_bool input ''SCF.INCFOCK'') (\<lambda>v s. s\<lparr>doIncFock := v\<rparr>) ss;
            ss = OPTOPT (getData_size_t input ''SCF.NINCFOCK'') (\<lambda>v s. s\<lparr>nIncFock := v\<rparr>) ss;
            ss = OPTOPT (getData_string input ''SCF.GUESS'')
                   (\<lambda>guessString s.
                      if guessString = ''CORE'' then s\<lparr>guess := CORE\<rparr>
                      else if guessString = ''SAD'' then s\<lparr>guess := SAD\<rparr>
                      else if guessString = ''RANDOM'' then s\<lparr>guess := RANDOM\<rparr>
                      else s) ss;
            ss = OPTOPT (getData_bool input ''SCF.EXTRAP'') (\<lambda>v s. s\<lparr>doExtrap := v\<rparr>) ss;
            ss = OPTOPT (getData_bool input ''SCF.DIIS'')
                   (\<lambda>doDIIS s. if \<not> doDIIS then s\<lparr>diisAlg := NONE\<rparr> else s) ss;
            ss = OPTOPT (getData_size_t input ''SCF.NKEEP'') (\<lambda>v s. s\<lparr>nKeep := v\<rparr>) ss;
            ss = OPTOPT (getData_bool input ''SCF.DAMP'') (\<lambda>v s. s\<lparr>doDamp := v\<rparr>) ss;
            ss = OPTOPT (getData_double input ''SCF.DAMPPARAM'') (\<lambda>v s. s\<lparr>dampStartParam := v\<rparr>) ss;
            ss = OPTOPT (getData_double input ''SCF.DAMPERROR'') (\<lambda>v s. s\<lparr>dampError := v\<rparr>) ss
        in case handleField split stod input pert of
             Inl e \<Rightarrow> Inl e
           | Inr pert' \<Rightarrow>
               let ss = (if dampStartParam ss = 0 then ss\<lparr>doDamp := False\<rparr> else ss);
                   ss = (if \<not> doDamp ss \<and> diisAlg ss = NONE then ss\<lparr>doExtrap := False\<rparr> else ss)
               in Inr (ss, pert'))"

text \<open>
  Inputs of the examples: a file with no \<open>SCF\<close> section, and a file whose \<open>SCF\<close>
  section asks for damping and extrapolation, switches DIIS off and sets the damping
  parameter to 0; controls that ask for damping with a damping parameter of 0.
\<close>

definition input_empty :: CQInputFile where
  "input_empty = \<lparr>containsSection = (\<lambda>s. False), getData_bool = Map.empty,
     getData_double = Map.empty, getData_size_t = Map.empty, getData_string = Map.empty\<rparr>"

definition input_scf :: CQInputFile where
  "input_scf = \<lparr>containsSection = (\<lambda>s. s = ''SCF''),
     getData_bool = [''SCF.DAMP'' \<mapsto> True, ''SCF.EXTRAP'' \<mapsto> True, ''SCF.DIIS'' \<mapsto> False],
     getData_double = [''SCF.DAMPPARAM'' \<mapsto> 0],
     getData_size_t = Map.empty, getData_string = Map.empty\<rparr>"

definition ss_damp0 :: SCFControls where
  "ss_damp0 = \<lparr>eneConvTol = 0, denConvTol = 0, maxSCFIter = 128, doIncFock = True,
     nIncFock = 20, guess = SAD, doExtrap = True, diisAlg = ALG 0, nKeep = 10,
     doDamp = True, dampStartParam = 0, dampError = 0\<rparr>"

section \<open>Properties of the inner product\<close>

lemma InnerProd_sum:
  "InnerProd ops n x incx y incy = (\<Sum>k<n. sconj ops (x ! (k * incx)) * y ! (k * incy))"
  unfolding InnerProd_def by (induction n) simp_all

lemma InnerProd_double_commute:
  "InnerProd double_ops n x incx y incy = InnerProd double_ops n y incy x incx"
  by (simp add: InnerProd_sum double_ops_def mult.commute)

lemma InnerProd_double_nonneg: "0 \<le> InnerProd double_ops n x inc x inc"
  by (simp add: InnerProd_sum double_ops_def sum_nonneg)

lemma InnerProd_dcomplex_cnj:
  "InnerProd dcomplex_ops n x incx y incy = cnj (InnerProd dcomplex_ops n y incy x incx)"
  by (simp add: InnerProd_sum dcomplex_ops_def mult.commute)

text \<open>
  C7.  For buffers \<open>x\<close>, \<open>y\<close> of \<open>n\<close> elements read with unit stride, the inner product
  is the sum over \<open>k = 0..n-1\<close> of \<open>x_k * y_k\<close> for real scalars and of
  \<open>conj(x_k) * y_k\<close> for complex scalars; the inner product of a real buffer with itself
  is non-negative, and in the complex case exchanging the arguments conjugates the result.
\<close>

theorem InnerProd_contract:
  assumes "length x = n" and "length y = n" and "length u = n" and "length v = n"
  shows "in_bounds n x 1 \<and> in_bounds n y 1
       \<and> InnerProd double_ops n x 1 y 1 = (\<Sum>k<n. x ! k * y ! k)
       \<and> InnerProd dcomplex_ops n u 1 v 1 = (\<Sum>k<n. cnj (u ! k) * v ! k)
       \<and> 0 \<le> InnerProd double_ops n x 1 x 1
       \<and> InnerProd dcomplex_ops n u 1 v 1 = cnj (InnerProd dcomplex_ops n v 1 u 1)"
proof -
  have "in_bounds n x 1" "in_bounds n y 1"
    using assms by (cases n; auto simp: in_bounds_def)+
  moreover have "InnerProd double_ops n x 1 y 1 = (\<Sum>k<n. x ! k * y ! k)"
    by (simp add: InnerProd_sum double_ops_def)
  moreover have "InnerProd dcomplex_ops n u 1 v 1 = (\<Sum>k<n. cnj (u ! k) * v ! k)"
    by (simp add: InnerProd_sum dcomplex_ops_def)
  ultimately show ?thesis
    using InnerProd_double_nonneg [of n x 1] InnerProd_dcomplex_cnj [of n u 1 v 1]
    by simp
qed

theorem InnerProd_contract_witness:
  "length [1, 2 :: real] = 2 \<and> length [3, 4 :: real] = 2
   \<and> length [\<i>, 1] = 2 \<and> length [1, \<i>] = 2
   \<and> in_bounds 2 [1, 2 :: real] 1 \<and> in_bounds 2 [3, 4 :: real] 1
   \<and> InnerProd double_ops 2 [1, 2] 1 [3, 4] 1 = (\<Sum>k<2. [1, 2] ! k * [3, 4] ! k)
   \<and> InnerProd dcomplex_ops 2 [\<i>, 1] 1 [1, \<i>] 1 = (\<Sum>k<2. cnj ([\<i>, 1] ! k) * [1, \<i>] ! k)
   \<and> 0 \<le> InnerProd double_ops 2 [1, 2] 1 [1, 2] 1
   \<and> InnerProd dcomplex_ops 2 [\<i>, 1] 1 [1, \<i>] 1
       = cnj (InnerProd dcomplex_ops 2 [1, \<i>] 1 [\<i>, 1] 1)"
proof -
  have l: "length [1, 2 :: real] = 2" "length [3, 4 :: real] = 2"
    "length [\<i>, 1] = 2" "length [1, \<i>] = 2"
    by simp_all
  show ?thesis using l InnerProd_contract [OF l] by blast
qed

section \<open>Entries of the assembled matrix\<close>

lemma idx_inj: "r < N \<Longrightarrow> k < N \<Longrightarrow> (r + c * N = k + j * N) = (r = k \<and> c = (j::nat))"
proof
  assume a: "r < N" "k < N" and e: "r + c * N = k + j * N"
  have "(r + c * N) mod N = (k + j * N) mod N" "(r + c * N) div N = (k + j * N) div N"
    using e by simp_all
  then show "r = k \<and> c = j" using a by simp
qed simp

lemma idx_bound: "r < N \<Longrightarrow> c < N \<Longrightarrow> r + c * N < N * (N::nat)"
proof -
  assume a: "r < N" "c < N"
  then have "Suc c * N \<le> N * N" by (metis Suc_leI mult_le_mono1)
  then show ?thesis using a by simp
qed

lemma acc_k_length:
  "length (fold (\<lambda>k B. B[k + j * N := B ! (k + j * N) + f k]) [0..<m] B) = length B"
  by (induction m) simp_all

lemma acc_k_nth:
  fixes B :: "'a::field list"
  assumes "length B = N * N" "j < N" "r < N" "c < N"
  shows "m \<le> N \<Longrightarrow> fold (\<lambda>k B. B[k + j * N := B ! (k + j * N) + f k]) [0..<m] B ! (r + c * N)
       = (if c = j \<and> r < m then B ! (r + c * N) + f r else B ! (r + c * N))"
proof (induction m)
  case 0
  then show ?case by simp
next
  case (Suc m)
  then have m: "m < N" by simp
  have len: "m + j * N < length (fold (\<lambda>k B. B[k + j * N := B ! (k + j * N) + f k]) [0..<m] B)"
    using assms m by (simp add: acc_k_length idx_bound)
  show ?case
    using Suc assms m len by (auto simp: nth_list_update idx_inj less_Suc_eq)
qed

lemma build_k_length: "length (build_k ops mem st N i j B) = length B"
  unfolding build_k_def by (rule acc_k_length)

lemma build_k_nth:
  assumes "length B = N * N" "j < N - 1" "r < N" "c < N"
  shows "build_k ops mem st N i j B ! (r + c * N)
       = (if c = j \<and> r \<le> j then B ! (r + c * N) + gterm ops mem st i r j else B ! (r + c * N))"
proof -
  have "j < N" "Suc j \<le> N" using assms(2) by simp_all
  from acc_k_nth [OF assms(1) this(1) assms(3,4) this(2),
      of "\<lambda>k. InnerProd ops (OSize st) (metric mem st k i) 1 (metric mem st j i) 1"]
  show ?thesis unfolding build_k_def gterm_def by (simp add: less_Suc_eq_le)
qed

lemma fold_build_k_length: "length (fold (build_k ops mem st N i) [0..<m] B) = length B"
  by (induction m) (simp_all add: build_k_length)

lemma fold_build_k_nth:
  assumes "length B = N * N" "r < N" "c < N"
  shows "m < N \<Longrightarrow> fold (build_k ops mem st N i) [0..<m] B ! (r + c * N)
     = (if c < m \<and> r \<le> c then B ! (r + c * N) + gterm ops mem st i r c else B ! (r + c * N))"
proof (induction m)
  case 0
  then show ?case by simp
next
  case (Suc m)
  let ?B' = "fold (build_k ops mem st N i) [0..<m] B"
  have len: "length ?B' = N * N" using assms by (simp add: fold_build_k_length)
  have m: "m < N - 1" using Suc.prems by simp
  show ?case
    using build_k_nth [OF len m assms(2,3)] Suc by (auto simp: less_Suc_eq)
qed

lemma build_j_length: "length (build_j ops mem st N i B) = length B"
  unfolding build_j_def by (rule fold_build_k_length)

lemma build_j_nth:
  assumes "length B = N * N" "nExtrap st < N" "r < N" "c < N"
  shows "build_j ops mem st N i B ! (r + c * N)
     = (if c < nExtrap st \<and> r \<le> c then B ! (r + c * N) + gterm ops mem st i r c
        else B ! (r + c * N))"
  unfolding build_j_def using fold_build_k_nth [OF assms(1,3,4,2)] .

lemma build_B_length: "length (build_B ops mem st N B) = length B"
proof -
  have "length (fold (build_j ops mem st N) [0..<m] B) = length B" for m
    by (induction m) (simp_all add: build_j_length)
  then show ?thesis unfolding build_B_def .
qed

lemma fold_build_j_nth:
  assumes "length B = N * N" "nExtrap st < N" "r < N" "c < N"
  shows "fold (build_j ops mem st N) [0..<m] B ! (r + c * N)
     = (if c < nExtrap st \<and> r \<le> c then B ! (r + c * N) + (\<Sum>i<m. gterm ops mem st i r c)
        else B ! (r + c * N))"
proof (induction m)
  case 0
  then show ?case by simp
next
  case (Suc m)
  let ?B' = "fold (build_j ops mem st N) [0..<m] B"
  have len: "length ?B' = N * N"
    using assms(1) by (induction m) (simp_all add: build_j_length)
  show ?case
    using build_j_nth [OF len assms(2,3,4)] Suc
    by (simp add: add.assoc)
qed

lemma build_B_nth:
  assumes "r < N" "c < N" "nExtrap st < N"
  shows "build_B ops mem st N (replicate (N * N) 0) ! (r + c * N)
     = (if c < nExtrap st \<and> r \<le> c then (\<Sum>i<nMat st. gterm ops mem st i r c) else 0)"
  using fold_build_j_nth [of "replicate (N * N) 0" N st r c ops mem "nMat st"] assms
  by (simp add: build_B_def idx_bound)

lemma gram_sum: "gram ops mem st k j = (\<Sum>i<nMat st. gterm ops mem st i k j)"
  unfolding gram_def by (simp add: interv_sum_list_conv_sum_set_nat atLeast0LessThan)

lemma mirror_k_length: "length (mirror_k N j B) = length B"
proof -
  have "length (fold (\<lambda>k B. B[j + k * N := B ! (k + j * N)]) [0..<m] B) = length B" for m
    by (induction m) simp_all
  then show ?thesis unfolding mirror_k_def .
qed

lemma mirror_k_nth:
  assumes "length B = N * N" "j < N" "r < N" "c < N"
  shows "mirror_k N j B ! (r + c * N)
       = (if r = j \<and> c < j then B ! (c + j * N) else B ! (r + c * N))"
proof -
  have len: "length (fold (\<lambda>k B. B[j + k * N := B ! (k + j * N)]) [0..<m] B) = length B" for m
    by (induction m) simp_all
  have "m \<le> j \<Longrightarrow> fold (\<lambda>k B. B[j + k * N := B ! (k + j * N)]) [0..<m] B ! (r + c * N)
       = (if r = j \<and> c < m then B ! (c + j * N) else B ! (r + c * N))" for m
  proof (induction m)
    case 0
    then show ?case by simp
  next
    case (Suc m)
    let ?B' = "fold (\<lambda>k B. B[j + k * N := B ! (k + j * N)]) [0..<m] B"
    have m: "m < j" "m < N" using Suc.prems assms by simp_all
    have rd: "?B' ! (m + j * N) = B ! (m + j * N)"
    proof -
      have "m \<le> j \<Longrightarrow> fold (\<lambda>k B. B[j + k * N := B ! (k + j * N)]) [0..<m'] B ! (m + j * N)
          = B ! (m + j * N)" for m'
        using m assms by (induction m') (auto simp: nth_list_update idx_inj len)
      then show ?thesis using m by simp
    qed
    have wr: "j + m * N < length ?B'" using assms m by (simp add: len idx_bound)
    show ?case using Suc m assms wr rd
      by (auto simp: nth_list_update idx_inj less_Suc_eq)
  qed
  then show ?thesis unfolding mirror_k_def by simp
qed

lemma fold_mirror_k_length: "length (fold (mirror_k N) [0..<m] B) = length B"
  by (induction m) (simp_all add: mirror_k_length)

lemma mirror_B_length: "length (mirror_B n N B) = length B"
  unfolding mirror_B_def by (rule fold_mirror_k_length)

lemma mirror_B_nth:
  assumes "length B = N * N" "r < N" "c < N"
  shows "n \<le> N \<Longrightarrow> mirror_B n N B ! (r + c * N)
       = (if r < n \<and> c < r then B ! (c + r * N) else B ! (r + c * N))"
  unfolding mirror_B_def
proof (induction n)
  case 0
  then show ?case by simp
next
  case (Suc n)
  let ?B' = "fold (mirror_k N) [0..<n] B"
  have len: "length ?B' = N * N" using assms by (simp add: fold_mirror_k_length)
  have n: "n < N" "n \<le> N" using Suc.prems by simp_all
  have up: "c < n \<Longrightarrow> ?B' ! (c + n * N) = B ! (c + n * N)"
  proof -
    assume "c < n"
    have "m \<le> n \<Longrightarrow> fold (mirror_k N) [0..<m] B ! (c + n * N) = B ! (c + n * N)" for m
    proof (induction m)
      case 0
      then show ?case by simp
    next
      case (Suc m)
      have "length (fold (mirror_k N) [0..<m] B) = N * N"
        using assms by (simp add: fold_mirror_k_length)
      from mirror_k_nth [OF this, of m c n] show ?case
        using Suc n assms \<open>c < n\<close> by simp
    qed
    then show ?thesis by simp
  qed
  show ?case
    using mirror_k_nth [OF len n(1) assms(2,3)] Suc.IH [OF n(2)] up
    by (auto simp: less_Suc_eq)
qed

lemma fold_border_length:
  "length (fold (\<lambda>l B. B[n + l * N := a, l + n * N := a]) [0..<m] B) = length B"
  by (induction m) simp_all

lemma fold_border_nth:
  assumes "length B = N * N" "n < N" "r < N" "c < N"
  shows "m \<le> n \<Longrightarrow> fold (\<lambda>l B. B[n + l * N := a, l + n * N := a]) [0..<m] B ! (r + c * N)
       = (if (r = n \<and> c < m) \<or> (c = n \<and> r < m) then a else B ! (r + c * N))"
proof (induction m)
  case 0
  then show ?case by simp
next
  case (Suc m)
  have m: "m < N" "m < n" using Suc.prems assms by simp_all
  have "n + m * N < N * N" "m + n * N < N * N"
    using assms m by (simp_all add: idx_bound)
  then show ?case using Suc m assms
    by (auto simp: nth_list_update idx_inj fold_border_length less_Suc_eq)
qed

lemma border_B_length: "length (border_B n N B) = length B"
  unfolding border_B_def by (simp add: fold_border_length)

lemma border_B_nth:
  fixes B :: "'a::field list"
  assumes "length B = N * N" "n < N" "r < N" "c < N"
  shows "border_B n N B ! (r + c * N)
       = (if r = n \<and> c = n then 0 else if (r = n \<and> c < n) \<or> (c = n \<and> r < n) then - 1
          else B ! (r + c * N))"
proof -
  have "n + n * N < N * N" using assms by (simp add: idx_bound)
  then show ?thesis
    unfolding border_B_def
    using fold_border_nth [OF assms order_refl, of "- 1"] assms
    by (auto simp: nth_list_update idx_inj fold_border_length)
qed

lemma assemble_length: "length (assemble ops mem st) = (nExtrap st + 1) * (nExtrap st + 1)"
  by (simp add: assemble_def border_B_length mirror_B_length build_B_length)

lemma assemble_nth:
  assumes "r \<le> nExtrap st" "c \<le> nExtrap st"
  shows "assemble ops mem st ! (r + c * (nExtrap st + 1))
       = (if r = nExtrap st \<and> c = nExtrap st then 0
          else if r = nExtrap st \<or> c = nExtrap st then - 1
          else if r \<le> c then gram ops mem st r c else gram ops mem st c r)"
proof -
  let ?N = "nExtrap st + 1"
  let ?B1 = "build_B ops mem st ?N (replicate (?N * ?N) 0)"
  let ?B2 = "mirror_B (nExtrap st) ?N ?B1"
  have rc: "r < ?N" "c < ?N" "nExtrap st < ?N" "nExtrap st \<le> ?N" using assms by simp_all
  have l1: "length ?B1 = ?N * ?N" by (simp add: build_B_length)
  have l2: "length ?B2 = ?N * ?N" by (simp add: mirror_B_length build_B_length)
  have e1: "?B1 ! (r + c * ?N)
      = (if c < nExtrap st \<and> r \<le> c then gram ops mem st r c else 0)"
    using build_B_nth [OF rc(1,2,3)] by (simp add: gram_sum)
  have e1': "?B1 ! (c + r * ?N)
      = (if r < nExtrap st \<and> c \<le> r then gram ops mem st c r else 0)"
    using build_B_nth [OF rc(2,1,3)] by (simp add: gram_sum)
  have e2: "?B2 ! (r + c * ?N)
      = (if r < nExtrap st \<and> c < r then ?B1 ! (c + r * ?N) else ?B1 ! (r + c * ?N))"
    using mirror_B_nth [OF l1 rc(1,2,4)] .
  have e3: "border_B (nExtrap st) ?N ?B2 ! (r + c * ?N)
       = (if r = nExtrap st \<and> c = nExtrap st then 0
          else if (r = nExtrap st \<and> c < nExtrap st) \<or> (c = nExtrap st \<and> r < nExtrap st) then - 1
          else ?B2 ! (r + c * ?N))"
    using border_B_nth [OF l2 rc(3,1,2)] .
  have "assemble ops mem st = border_B (nExtrap st) ?N ?B2"
    by (simp add: assemble_def)
  then show ?thesis
    using e1 e1' e2 e3 assms by (auto simp: Let_def)
qed

section \<open>The dense solver is exact\<close>

lemma dot_Cons [simp]: "dot (c # cs) (x # xs) = c * x + dot cs xs"
  by (simp add: dot_def)

lemma dot_Nil [simp]: "dot [] xs = 0" "dot cs [] = 0"
  by (simp_all add: dot_def)

lemma dot_reduce:
  "length cs = length ds \<Longrightarrow>
   dot (map2 (\<lambda>a b. a - m * b) cs ds) xs = dot cs xs - m * dot ds xs"
proof (induction cs arbitrary: ds xs)
  case Nil
  then show ?case by simp
next
  case (Cons c cs)
  then obtain d ds' where ds: "ds = d # ds'" by (cases ds) auto
  show ?case
  proof (cases xs)
    case Nil
    then show ?thesis by simp
  next
    case (Cons y ys)
    then show ?thesis using Cons.IH [of ds' ys] Cons.prems ds
      by (simp add: algebra_simps)
  qed
qed

lemma iamax_less: "xs \<noteq> [] \<Longrightarrow> iamax xs < length xs"
  by (induction xs rule: iamax.induct) (auto simp: Let_def)

lemma reduce_sat:
  fixes pr :: "'a::field row"
  assumes "lead pr \<noteq> 0" "length (fst pr) = Suc n" "length (fst r) = Suc n"
    and "sat (x0 # xs) pr"
  shows "sat (x0 # xs) r \<longleftrightarrow> sat xs (reduce pr r)"
proof -
  obtain c cs where pr: "fst pr = c # cs" using assms(2) by (cases "fst pr") auto
  obtain d ds where r: "fst r = d # ds" using assms(3) by (cases "fst r") auto
  have c: "c \<noteq> 0" "lead pr = c" using assms(1) pr by (simp_all add: lead_def)
  have d: "lead r = d" using r by (simp add: lead_def)
  have len: "length ds = length cs" using assms(2,3) pr r by simp
  have p: "c * x0 + dot cs xs = snd pr" using assms(4) pr by (simp add: sat_def)
  have "sat xs (reduce pr r) \<longleftrightarrow> dot ds xs - d / c * dot cs xs = snd r - d / c * snd pr"
    by (simp add: sat_def reduce_def Let_def pr r c d dot_reduce [OF len] del: times_divide_eq_left times_divide_eq_right)
  also have "\<dots> \<longleftrightarrow> snd r - d / c * snd pr - (dot ds xs - d / c * dot cs xs) = 0"
    by auto
  also have "snd r - d / c * snd pr - (dot ds xs - d / c * dot cs xs)
           = snd r - (d * x0 + dot ds xs)"
    using c(1) by (simp add: p [symmetric] field_simps)
  also have "snd r - (d * x0 + dot ds xs) = 0 \<longleftrightarrow> d * x0 + dot ds xs = snd r"
    by auto
  finally show ?thesis using r by (simp add: sat_def)
qed

lemma pivot_swap_set:
  assumes "p < length (r # rs)"
  shows "set ((r # rs) ! p # (if p = 0 then rs else rs[p - 1 := r])) = set (r # rs)"
proof (cases p)
  case 0
  then show ?thesis by simp
next
  case (Suc q)
  then have q: "q < length rs" using assms by simp
  have "rs = take q rs @ rs ! q # drop (Suc q) rs" using q by (rule id_take_nth_drop)
  moreover have "rs[q := r] = take q rs @ r # drop (Suc q) rs" using q by (rule upd_conv_take_nth_drop)
  ultimately have "insert (rs ! q) (set (rs[q := r])) = insert r (set rs)"
    by (metis Un_insert_right insert_commute list.simps(15) set_append)
  then show ?thesis using Suc by simp
qed

lemma reduce_length:
  "length (fst pr) = Suc n \<Longrightarrow> length (fst r) = Suc n \<Longrightarrow> length (fst (reduce pr r)) = n"
  by (simp add: reduce_def Let_def)

lemma elim_sound:
  fixes rows :: "'a::field row list"
  shows "elim ops k rows = Inr tri \<Longrightarrow> (\<forall>r\<in>set rows. length (fst r) = length rows)
    \<Longrightarrow> length x = length rows
    \<Longrightarrow> (\<forall>r\<in>set rows. sat x r) \<longleftrightarrow> x = backsub tri"
proof (induction ops k rows arbitrary: tri x rule: elim.induct)
  case (1 ops k)
  then show ?case by simp
next
  case (2 ops k r rs)
  define p where "p = iamax (map (\<lambda>q. smag ops (lead q)) (r # rs))"
  define pr where "pr = (r # rs) ! p"
  define rest where "rest = (if p = 0 then rs else rs[p - 1 := r])"
  have p: "p < length (r # rs)" unfolding p_def using iamax_less [of "map (\<lambda>q. smag ops (lead q)) (r # rs)"] by simp
  have sets: "set (pr # rest) = set (r # rs)"
    unfolding pr_def rest_def using pivot_swap_set [OF p] .
  have eq: "elim ops k (r # rs) =
      (if lead pr = 0 then Inl (k + 1)
       else case elim ops (k + 1) (map (reduce pr) rest) of
              Inl i \<Rightarrow> Inl i | Inr t \<Rightarrow> Inr (pr # t))"
    unfolding p_def pr_def rest_def by (simp only: elim.simps Let_def)
  have nz: "lead pr \<noteq> 0"
    using "2.prems"(1) unfolding eq by (auto split: if_splits)
  obtain tri' where tri': "elim ops (k + 1) (map (reduce pr) rest) = Inr tri'"
    and tri: "tri = pr # tri'"
    using "2.prems"(1) nz unfolding eq by (auto split: sum.splits)
  have lrest: "length rest = length rs" by (simp add: rest_def)
  have lens: "\<forall>q\<in>set (pr # rest). length (fst q) = Suc (length rs)"
    using "2.prems"(2) sets by simp
  then have lpr: "length (fst pr) = Suc (length rs)" by simp
  have lens': "\<forall>q\<in>set (map (reduce pr) rest). length (fst q) = length (map (reduce pr) rest)"
    using lens lrest by (auto simp: reduce_length [OF lpr])
  obtain x0 xs where x: "x = x0 # xs" and lxs: "length xs = length rs"
    using "2.prems"(3) by (cases x) auto
  have IH: "(\<forall>q\<in>set (map (reduce pr) rest). sat xs q) \<longleftrightarrow> xs = backsub tri'"
    using "2.IH" [OF p_def pr_def rest_def nz tri' lens'] lxs lrest by simp
  have "(\<forall>q\<in>set (r # rs). sat x q) \<longleftrightarrow> sat x pr \<and> (\<forall>q\<in>set rest. sat x q)"
    using sets by auto
  also have "\<dots> \<longleftrightarrow> sat x pr \<and> (\<forall>q\<in>set rest. sat xs (reduce pr q))"
    using reduce_sat [OF nz lpr, of _ x0 xs] lens x by auto
  also have "\<dots> \<longleftrightarrow> sat x pr \<and> xs = backsub tri'"
    using IH by simp
  also have "\<dots> \<longleftrightarrow> x = backsub tri"
  proof -
    obtain c cs where c: "fst pr = c # cs" using lpr by (cases "fst pr") auto
    have "c \<noteq> 0" "lead pr = c" using nz c by (simp_all add: lead_def)
    then have "sat (x0 # xs) pr \<longleftrightarrow> x0 = (snd pr - dot cs xs) / c"
      using c by (auto simp: sat_def field_simps)
    then show ?thesis using x tri c \<open>lead pr = c\<close> by (auto simp: Let_def)
  qed
  finally show ?case .
qed

lemma elim_Inl_pos: "elim ops k rows = Inl i \<Longrightarrow> k < i"
proof (induction ops k rows arbitrary: i rule: elim.induct)
  case (1 ops k)
  then show ?case by simp
next
  case (2 ops k r rs)
  define p where "p = iamax (map (\<lambda>q. smag ops (lead q)) (r # rs))"
  define pr where "pr = (r # rs) ! p"
  define rest where "rest = (if p = 0 then rs else rs[p - 1 := r])"
  have eq: "elim ops k (r # rs) =
      (if lead pr = 0 then Inl (k + 1)
       else case elim ops (k + 1) (map (reduce pr) rest) of
              Inl i \<Rightarrow> Inl i | Inr t \<Rightarrow> Inr (pr # t))"
    unfolding p_def pr_def rest_def by (simp only: elim.simps Let_def)
  show ?case
  proof (cases "lead pr = 0")
    case True
    then show ?thesis using "2.prems" unfolding eq by simp
  next
    case False
    then have "elim ops (k + 1) (map (reduce pr) rest) = Inl i"
      using "2.prems" unfolding eq by (auto split: sum.splits)
    from "2.IH" [OF p_def pr_def rest_def False this] show ?thesis by simp
  qed
qed

lemma elim_length: "elim ops k rows = Inr tri \<Longrightarrow> length tri = length rows"
proof (induction ops k rows arbitrary: tri rule: elim.induct)
  case (1 ops k)
  then show ?case by simp
next
  case (2 ops k r rs)
  define p where "p = iamax (map (\<lambda>q. smag ops (lead q)) (r # rs))"
  define pr where "pr = (r # rs) ! p"
  define rest where "rest = (if p = 0 then rs else rs[p - 1 := r])"
  have eq: "elim ops k (r # rs) =
      (if lead pr = 0 then Inl (k + 1)
       else case elim ops (k + 1) (map (reduce pr) rest) of
              Inl i \<Rightarrow> Inl i | Inr t \<Rightarrow> Inr (pr # t))"
    unfolding p_def pr_def rest_def by (simp only: elim.simps Let_def)
  have nz: "lead pr \<noteq> 0"
    using "2.prems" unfolding eq by (auto split: if_splits)
  obtain tri' where tri': "elim ops (k + 1) (map (reduce pr) rest) = Inr tri'"
    and tri: "tri = pr # tri'"
    using "2.prems" nz unfolding eq by (auto split: sum.splits)
  have "length rest = length rs" by (simp add: rest_def)
  then show ?case using "2.IH" [OF p_def pr_def rest_def nz tri'] tri by simp
qed

lemma backsub_length: "length (backsub tri) = length tri"
  by (induction tri) (simp_all add: Let_def)

lemma dot_map_upt:
  "length x = N \<Longrightarrow> dot (map f [0..<N]) x = (\<Sum>c<N. f c * x ! c)"
  by (simp add: dot_def sum_list_sum_nth atLeast0LessThan)

lemma rows_of_length: "length (rows_of N A b) = N"
  by (simp add: rows_of_def)

lemma rows_of_wf: "\<forall>r\<in>set (rows_of N A b). length (fst r) = length (rows_of N A b)"
  by (auto simp: rows_of_def)

lemma sat_rows_of:
  "length x = N \<Longrightarrow>
   (\<forall>q\<in>set (rows_of N A b). sat x q) \<longleftrightarrow> (\<forall>r<N. (\<Sum>c<N. A ! (r + c * N) * x ! c) = b ! r)"
  by (auto simp: rows_of_def sat_def dot_map_upt)

text \<open>A zero status means that the result is the one and only solution of the system.\<close>

lemma gesv_unique:
  assumes "gesv ops N A b = (0, x)" "length y = N"
  shows "(\<forall>r<N. (\<Sum>c<N. A ! (r + c * N) * y ! c) = b ! r) \<longleftrightarrow> y = x"
proof -
  obtain tri where tri: "elim ops 0 (rows_of N A b) = Inr tri" and x: "x = backsub tri"
    using assms(1) elim_Inl_pos [of ops 0 "rows_of N A b"]
    by (auto simp: gesv_def split: sum.splits)
  from elim_sound [OF tri rows_of_wf, of y] assms(2) x sat_rows_of [OF assms(2), of A b]
  show ?thesis by (simp add: rows_of_length)
qed

lemma gesv_length:
  assumes "gesv ops N A b = (0, x)"
  shows "length x = N"
proof -
  obtain tri where tri: "elim ops 0 (rows_of N A b) = Inr tri" and x: "x = backsub tri"
    using assms(1) elim_Inl_pos [of ops 0 "rows_of N A b"]
    by (auto simp: gesv_def split: sum.splits)
  show ?thesis using elim_length [OF tri] x by (simp add: backsub_length rows_of_length)
qed

lemma gesv_solves:
  assumes "gesv ops N A b = (0, x)" "r < N"
  shows "(\<Sum>c<N. A ! (r + c * N) * x ! c) = b ! r"
  using gesv_unique [OF assms(1) gesv_length [OF assms(1)]] assms(2) by simp

section \<open>extrapolate\<close>

lemma extrapolate_Some:
  assumes "extrapolate ops mem st = Some (ok, st', mem')"
  shows "readable mem st" and "nExtrap st + 1 \<le> length (coeffs st)"
    and "(nExtrap st + 1) * (nExtrap st + 1) \<le> 2147483647"
    and "mem' = mem"
    and "ok = (fst (gesv ops (nExtrap st + 1) (assemble ops mem st) (rhs (nExtrap st))) = 0)"
    and "st' = st\<lparr>coeffs := snd (gesv ops (nExtrap st + 1) (assemble ops mem st) (rhs (nExtrap st)))
                     @ drop (nExtrap st + 1) (coeffs st)\<rparr>"
  using assms
  by (auto simp: extrapolate_def Let_def split: if_splits prod.splits)

lemma extrapolate_defined:
  assumes "readable mem st" and "nExtrap st + 1 \<le> length (coeffs st)"
    and "(nExtrap st + 1) * (nExtrap st + 1) \<le> 2147483647"
  shows "extrapolate ops mem st =
     Some (fst (gesv ops (nExtrap st + 1) (assemble ops mem st) (rhs (nExtrap st))) = 0,
           st\<lparr>coeffs := snd (gesv ops (nExtrap st + 1) (assemble ops mem st) (rhs (nExtrap st)))
                     @ drop (nExtrap st + 1) (coeffs st)\<rparr>, mem)"
  using assms
  by (auto simp: extrapolate_def Let_def split: if_splits prod.splits)

text \<open>
  The constructor gives \<open>coeffs\<close> its \<open>nExtrap + 1\<close> entries, and a call that is
  defined keeps that length, whatever it returns.
\<close>

lemma DIIS_new_coeffs_length:
  "length (coeffs (DIIS_new n m sz em)) = nExtrap (DIIS_new n m sz em) + 1"
  by (simp add: DIIS_new_def)

lemma gesv_snd_length:
  assumes "length b = N"
  shows "length (snd (gesv ops N A b)) = N"
proof (cases "elim ops 0 (rows_of N A b)")
  case (Inl i)
  then show ?thesis using assms by (simp add: gesv_def)
next
  case (Inr tri)
  then show ?thesis
    using elim_length [OF Inr] by (simp add: gesv_def backsub_length rows_of_length)
qed

lemma extrapolate_keeps_length:
  assumes "extrapolate ops mem st = Some (ok, st', mem')"
    and "length (coeffs st) = nExtrap st + 1"
  shows "length (coeffs st') = nExtrap st' + 1"
proof -
  have "length (rhs (nExtrap st) :: 'a list) = nExtrap st + 1"
    by (simp add: rhs_def del: replicate.simps)
  from gesv_snd_length [OF this, of ops "assemble ops mem st"]
  show ?thesis using extrapolate_Some(6) [OF assms(1)] assms(2) by simp
qed

lemma gesv_orth:
  "gesv double_ops 3 (assemble double_ops mem_orth st_two) (rhs 2) = (0, [1/2, 1/2, 1/2])"
  by code_simp

lemma readable_orth: "readable mem_orth st_two"
  by code_simp

lemma run_orth:
  "extrapolate double_ops mem_orth st_two = Some (True, st_two\<lparr>coeffs := [1/2, 1/2, 1/2]\<rparr>, mem_orth)"
proof -
  have n: "nExtrap st_two = 2" "length (coeffs st_two) = 3"
    by (simp_all add: st_two_def DIIS_new_def)
  show ?thesis
    using extrapolate_defined [OF readable_orth, of double_ops] n gesv_orth by simp
qed

lemma rhs_nth: "l \<le> n \<Longrightarrow> rhs n ! l = (if l = n then - 1 else (0::'a::field))"
  by (simp add: rhs_def nth_list_update del: replicate.simps)

lemma rhs_length: "length (rhs n) = n + 1"
  by (simp add: rhs_def del: replicate.simps)

lemma run_built:
  assumes "readable mem st" and "length (coeffs st) = nExtrap st + 1"
    and "(nExtrap st + 1) * (nExtrap st + 1) \<le> 2147483647"
    and "gesv ops (nExtrap st + 1) (assemble ops mem st) (rhs (nExtrap st)) = (info, x)"
  shows "extrapolate ops mem st = Some (info = 0, st\<lparr>coeffs := x\<rparr>, mem)"
  using extrapolate_defined [OF assms(1) _ assms(3), of ops] assms(2,4) by simp




lemma st_one_fields: "nExtrap st_one = 1" "length (coeffs st_one) = nExtrap st_one + 1"
  by (simp_all add: st_one_def DIIS_new_def)

lemma run_one:
  "extrapolate double_ops mem_one st_one = Some (True, st_one\<lparr>coeffs := [1, 1]\<rparr>, mem_one)"
proof -
  have "readable mem_one st_one" by code_simp
  moreover have "(nExtrap st_one + 1) * (nExtrap st_one + 1) \<le> 2147483647"
    by (simp add: st_one_fields(1))
  moreover have "gesv double_ops (nExtrap st_one + 1) (assemble double_ops mem_one st_one)
      (rhs (nExtrap st_one)) = (0, [1, 1])"
    by code_simp
  ultimately show ?thesis using run_built [of mem_one st_one double_ops 0 "[1, 1]"] st_one_fields(2)
    by simp
qed


lemma st_two_fields:
  "nExtrap st_two = 2" "nMat st_two = 1" "OSize st_two = 2"
  "length (coeffs st_two) = nExtrap st_two + 1"
  by (simp_all add: st_two_def DIIS_new_def)

lemma st_cplx_fields:
  "nExtrap st_cplx = 2" "nMat st_cplx = 1" "OSize st_cplx = 1"
  "length (coeffs st_cplx) = nExtrap st_cplx + 1"
  by (simp_all add: st_cplx_def DIIS_new_def)

text \<open>
  C2.  For a readable history, with \<open>N = nExtrap + 1\<close>: for \<open>k \<le> j < nExtrap\<close> the
  entry \<open>B[k + j*N]\<close> is the sum over the tracked matrices \<open>i < nMat\<close> of
  \<open>InnerProd(errorMetric[k][i], errorMetric[j][i])\<close>; the border entries
  \<open>B[nExtrap + l*N]\<close> and \<open>B[l + nExtrap*N]\<close> are \<open>-1\<close> for \<open>l < nExtrap\<close>; the
  corner is 0; and the right-hand side is zero except for its last entry \<open>-1\<close>.
\<close>

theorem assemble_entries:
  assumes "readable mem st" and "k \<le> j" and "j < nExtrap st" and "l < nExtrap st"
  shows "length (assemble ops mem st) = (nExtrap st + 1) * (nExtrap st + 1)
    \<and> assemble ops mem st ! (k + j * (nExtrap st + 1))
        = sum_list (map (\<lambda>i. InnerProd ops (OSize st) (metric mem st k i) 1 (metric mem st j i) 1)
            [0..<nMat st])
    \<and> assemble ops mem st ! (nExtrap st + l * (nExtrap st + 1)) = - 1
    \<and> assemble ops mem st ! (l + nExtrap st * (nExtrap st + 1)) = - 1
    \<and> assemble ops mem st ! (nExtrap st + nExtrap st * (nExtrap st + 1)) = 0
    \<and> length (rhs (nExtrap st) :: 'a::field list) = nExtrap st + 1
    \<and> (rhs (nExtrap st) :: 'a list) ! l = 0
    \<and> (rhs (nExtrap st) :: 'a list) ! nExtrap st = - 1"
proof -
  let ?n = "nExtrap st"
  have "assemble ops mem st ! (k + j * (?n + 1)) = gram ops mem st k j"
    using assemble_nth [of k st j ops mem] assms by simp
  moreover have "assemble ops mem st ! (?n + l * (?n + 1)) = - 1"
    using assemble_nth [of ?n st l ops mem] assms by simp
  moreover have "assemble ops mem st ! (l + ?n * (?n + 1)) = - 1"
    using assemble_nth [of l st ?n ops mem] assms by simp
  moreover have "assemble ops mem st ! (?n + ?n * (?n + 1)) = 0"
    using assemble_nth [of ?n st ?n ops mem] by simp
  moreover have "(rhs ?n :: 'a list) ! l = 0" "(rhs ?n :: 'a list) ! ?n = - 1"
    using assms(4) by (simp_all add: rhs_nth)
  ultimately show ?thesis
    by (simp add: assemble_length rhs_length gram_def gterm_def)
qed

theorem assemble_entries_witness:
  "readable mem_orth st_two \<and> (0::nat) \<le> 1 \<and> 1 < nExtrap st_two
    \<and> length (assemble double_ops mem_orth st_two) = (nExtrap st_two + 1) * (nExtrap st_two + 1)
    \<and> assemble double_ops mem_orth st_two ! (0 + 1 * (nExtrap st_two + 1))
        = sum_list (map (\<lambda>i. InnerProd double_ops (OSize st_two)
              (metric mem_orth st_two 0 i) 1 (metric mem_orth st_two 1 i) 1) [0..<nMat st_two])
    \<and> assemble double_ops mem_orth st_two ! (nExtrap st_two + 1 * (nExtrap st_two + 1)) = - 1
    \<and> assemble double_ops mem_orth st_two ! (1 + nExtrap st_two * (nExtrap st_two + 1)) = - 1
    \<and> assemble double_ops mem_orth st_two ! (nExtrap st_two + nExtrap st_two * (nExtrap st_two + 1)) = 0
    \<and> length (rhs (nExtrap st_two) :: real list) = nExtrap st_two + 1
    \<and> (rhs (nExtrap st_two) :: real list) ! 1 = 0
    \<and> (rhs (nExtrap st_two) :: real list) ! nExtrap st_two = - 1"
proof -
  have h: "(0::nat) \<le> 1" "1 < nExtrap st_two" by (simp_all add: st_two_fields)
  show ?thesis
    using assemble_entries [OF readable_orth h(1) h(2) h(2), of double_ops] h readable_orth
    by blast
qed

text \<open>
  C4.  After assembly the Gram block of \<open>B\<close> is symmetric, \<open>B[j + k*N] = B[k + j*N]\<close> for
  all \<open>j, k < nExtrap\<close>, whatever the scalar type: the mirror step copies the entry
  as it is, without conjugating it.
\<close>

theorem gram_block_symmetric:
  assumes "readable mem st" and "j < nExtrap st" and "k < nExtrap st"
  shows "assemble ops mem st ! (j + k * (nExtrap st + 1))
       = assemble ops mem st ! (k + j * (nExtrap st + 1))"
  using assemble_nth [of j st k ops mem] assemble_nth [of k st j ops mem] assms
  by (cases "j = k") auto

lemma readable_cplx: "readable mem_cplx st_cplx"
  by code_simp

lemma assemble_cplx:
  "assemble dcomplex_ops mem_cplx st_cplx ! (1 + 0 * (nExtrap st_cplx + 1)) = \<i>"
  "assemble dcomplex_ops mem_cplx st_cplx ! (0 + 1 * (nExtrap st_cplx + 1)) = \<i>"
  by (simp_all add: assemble_def border_B_def mirror_B_def mirror_k_def build_B_def
      build_j_def build_k_def InnerProd_def metric_def dcomplex_ops_def
      st_cplx_def DIIS_new_def mem_cplx_def eval_nat_numeral)

theorem gram_block_symmetric_witness:
  "readable mem_cplx st_cplx \<and> 1 < nExtrap st_cplx \<and> 0 < nExtrap st_cplx
   \<and> assemble dcomplex_ops mem_cplx st_cplx ! (1 + 0 * (nExtrap st_cplx + 1))
       = assemble dcomplex_ops mem_cplx st_cplx ! (0 + 1 * (nExtrap st_cplx + 1))
   \<and> assemble dcomplex_ops mem_cplx st_cplx ! (0 + 1 * (nExtrap st_cplx + 1)) = \<i>"
proof -
  have h: "1 < nExtrap st_cplx" "0 < nExtrap st_cplx" by (simp_all add: st_cplx_fields)
  show ?thesis
    using gram_block_symmetric [OF readable_cplx h, of dcomplex_ops] h readable_cplx
      assemble_cplx(2)
    by blast
qed

text \<open>
  C6.  In the orthonormal scenario (\<open>nExtrap = 2\<close>, \<open>nMat = 1\<close>, \<open>OSize = 2\<close>,
  \<open>e0 = [1,0]\<close>, \<open>e1 = [0,1]\<close>) the Gram block of \<open>B\<close> is the identity of size 2,
  \<open>extrapolate\<close> returns true, and the weights are \<open>coeffs[0] = coeffs[1] = 1/2\<close>.
\<close>

theorem orthonormal_scenario:
  "nExtrap st_two = 2 \<and> nMat st_two = 1 \<and> OSize st_two = 2
   \<and> metric mem_orth st_two 0 0 = [1, 0] \<and> metric mem_orth st_two 1 0 = [0, 1]
   \<and> assemble double_ops mem_orth st_two ! (0 + 0 * 3) = 1
   \<and> assemble double_ops mem_orth st_two ! (0 + 1 * 3) = 0
   \<and> assemble double_ops mem_orth st_two ! (1 + 0 * 3) = 0
   \<and> assemble double_ops mem_orth st_two ! (1 + 1 * 3) = 1
   \<and> returned (extrapolate double_ops mem_orth st_two) = Some True
   \<and> map_option (take 2) (coeffs_after (extrapolate double_ops mem_orth st_two))
       = Some [1/2, 1/2]"
proof -
  have "metric mem_orth st_two 0 0 = [1, 0]" "metric mem_orth st_two 1 0 = [0, 1]"
    by (simp_all add: metric_def st_two_def DIIS_new_def mem_orth_def)
  moreover have "assemble double_ops mem_orth st_two = [1, 0, - 1, 0, 1, - 1, - 1, - 1, 0]"
    by code_simp
  ultimately show ?thesis
    by (simp add: st_two_fields run_orth returned_def coeffs_after_def)
qed

theorem orthonormal_scenario_witness:
  "\<not> 2147483647 < (nExtrap st_two + 1) * (nExtrap st_two + 1)
   \<and> readable mem_orth st_two
   \<and> \<not> length (coeffs st_two) < nExtrap st_two + 1
   \<and> assemble double_ops mem_orth st_two ! (0 + 0 * 3) = 1
   \<and> assemble double_ops mem_orth st_two ! (1 + 1 * 3) = 1
   \<and> returned (extrapolate double_ops mem_orth st_two) = Some True
   \<and> map_option (take 2) (coeffs_after (extrapolate double_ops mem_orth st_two))
       = Some [1/2, 1/2]"
  using orthonormal_scenario readable_orth by (simp add: st_two_fields)

text \<open>
  C8.  A call that is defined leaves the caller's memory as it was, and with it every
  error-metric buffer, and changes no field of the engine other than \<open>coeffs\<close>.
\<close>

theorem extrapolate_frame:
  assumes "extrapolate ops mem st = Some (ok, st', mem')"
  shows "mem' = mem \<and> nExtrap st' = nExtrap st \<and> nMat st' = nMat st \<and> OSize st' = OSize st
       \<and> errorMetric st' = errorMetric st \<and> st' = st\<lparr>coeffs := coeffs st'\<rparr>
       \<and> (\<forall>k i. metric mem' st' k i = metric mem st k i)"
  using extrapolate_Some(4,6) [OF assms] by (simp add: metric_def)

theorem extrapolate_frame_witness:
  "extrapolate double_ops mem_orth st_two = Some (True, st_two\<lparr>coeffs := [1/2, 1/2, 1/2]\<rparr>, mem_orth)
   \<and> nExtrap (st_two\<lparr>coeffs := [1/2, 1/2, 1/2]\<rparr>) = nExtrap st_two
   \<and> nMat (st_two\<lparr>coeffs := [1/2, 1/2, 1/2]\<rparr>) = nMat st_two
   \<and> OSize (st_two\<lparr>coeffs := [1/2, 1/2, 1/2]\<rparr>) = OSize st_two
   \<and> errorMetric (st_two\<lparr>coeffs := [1/2, 1/2, 1/2]\<rparr>) = errorMetric st_two
   \<and> (\<forall>k i. metric mem_orth (st_two\<lparr>coeffs := [1/2, 1/2, 1/2]\<rparr>) k i = metric mem_orth st_two k i)"
  using extrapolate_frame [OF run_orth] run_orth by blast

lemma build_k_coeffs_update:
  "build_k ops mem (st\<lparr>coeffs := c\<rparr>) N i = build_k ops mem st N i"
  by (rule ext) (simp add: build_k_def metric_def)

lemma build_j_coeffs_update:
  "build_j ops mem (st\<lparr>coeffs := c\<rparr>) N = build_j ops mem st N"
  by (rule ext) (simp add: build_j_def build_k_coeffs_update)

lemma assemble_coeffs_update [simp]: "assemble ops mem (st\<lparr>coeffs := c\<rparr>) = assemble ops mem st"
  by (simp add: assemble_def build_B_def build_j_coeffs_update)

lemma readable_coeffs_update [simp]: "readable mem (st\<lparr>coeffs := c\<rparr>) = readable mem st"
  by (simp add: readable_def cong: option.case_cong)

text \<open>
  C9.  The result is a function of \<open>nExtrap\<close>, \<open>nMat\<close>, \<open>OSize\<close> and the history:
  if two engines agree on these (with \<open>coeffs\<close> of \<open>nExtrap + 1\<close> entries each) and a
  call on the first returns, then a call on the second returns the same boolean and leaves
  the same \<open>coeffs\<close>.  In particular a second call on the same engine repeats the first.
\<close>

theorem extrapolate_deterministic:
  assumes "nExtrap st2 = nExtrap st1" and "nMat st2 = nMat st1" and "OSize st2 = OSize st1"
    and "errorMetric st2 = errorMetric st1"
    and "length (coeffs st1) = nExtrap st1 + 1" and "length (coeffs st2) = nExtrap st1 + 1"
    and "extrapolate ops mem st1 = Some (ok, st1', mem1')"
  shows "\<exists>st2'. extrapolate ops mem st2 = Some (ok, st2', mem) \<and> coeffs st2' = coeffs st1'"
proof -
  have st2: "st2 = st1\<lparr>coeffs := coeffs st2\<rparr>" using assms(1-4) by simp
  have r: "readable mem st2" "assemble ops mem st2 = assemble ops mem st1"
    using extrapolate_Some(1) [OF assms(7)]
    by (subst st2, simp)+
  have "extrapolate ops mem st2 =
     Some (fst (gesv ops (nExtrap st2 + 1) (assemble ops mem st2) (rhs (nExtrap st2))) = 0,
           st2\<lparr>coeffs := snd (gesv ops (nExtrap st2 + 1) (assemble ops mem st2) (rhs (nExtrap st2)))
                     @ drop (nExtrap st2 + 1) (coeffs st2)\<rparr>, mem)"
    using extrapolate_defined [OF r(1), of ops] extrapolate_Some(3) [OF assms(7)] assms(1,6)
    by simp
  then show ?thesis
    using extrapolate_Some(5,6) [OF assms(7)] assms(1,5,6) r(2) by simp
qed

theorem extrapolate_deterministic_witness:
  "nExtrap (st_two\<lparr>coeffs := [1/2, 1/2, 1/2]\<rparr>) = nExtrap st_two
   \<and> nMat (st_two\<lparr>coeffs := [1/2, 1/2, 1/2]\<rparr>) = nMat st_two
   \<and> OSize (st_two\<lparr>coeffs := [1/2, 1/2, 1/2]\<rparr>) = OSize st_two
   \<and> errorMetric (st_two\<lparr>coeffs := [1/2, 1/2, 1/2]\<rparr>) = errorMetric st_two
   \<and> length (coeffs st_two) = nExtrap st_two + 1
   \<and> length (coeffs (st_two\<lparr>coeffs := [1/2, 1/2, 1/2 :: real]\<rparr>)) = nExtrap st_two + 1
   \<and> extrapolate double_ops mem_orth st_two
       = Some (True, st_two\<lparr>coeffs := [1/2, 1/2, 1/2]\<rparr>, mem_orth)
   \<and> (\<exists>st2'. extrapolate double_ops mem_orth (st_two\<lparr>coeffs := [1/2, 1/2, 1/2]\<rparr>)
          = Some (True, st2', mem_orth)
        \<and> coeffs st2' = coeffs (st_two\<lparr>coeffs := [1/2, 1/2, 1/2]\<rparr>))"
proof -
  have l: "length (coeffs (st_two\<lparr>coeffs := [1/2, 1/2, 1/2 :: real]\<rparr>)) = nExtrap st_two + 1"
    by (simp add: st_two_fields)
  have e: "nExtrap (st_two\<lparr>coeffs := [1/2, 1/2, 1/2]\<rparr>) = nExtrap st_two"
    "nMat (st_two\<lparr>coeffs := [1/2, 1/2, 1/2]\<rparr>) = nMat st_two"
    "OSize (st_two\<lparr>coeffs := [1/2, 1/2, 1/2]\<rparr>) = OSize st_two"
    "errorMetric (st_two\<lparr>coeffs := [1/2, 1/2, 1/2]\<rparr>) = errorMetric st_two"
    by simp_all
  show ?thesis
    using extrapolate_deterministic [OF e st_two_fields(4) l run_orth] e st_two_fields(4) l run_orth
    by blast
qed

lemma singular_fails:
  fixes A :: "'a::field list"
  assumes "length v = N" and "c0 < N" and "v ! c0 \<noteq> 0"
    and "\<forall>r<N. (\<Sum>c<N. A ! (r + c * N) * v ! c) = 0"
  shows "fst (gesv ops N A b) \<noteq> 0"
proof
  assume "fst (gesv ops N A b) = 0"
  then have g: "gesv ops N A b = (0, snd (gesv ops N A b))" by (metis prod.collapse)
  let ?x = "snd (gesv ops N A b)"
  let ?y = "map (\<lambda>c. ?x ! c + v ! c) [0..<N]"
  have ly: "length ?y = N" by simp
  have "(\<Sum>c<N. A ! (r + c * N) * ?y ! c) = b ! r" if "r < N" for r
  proof -
    have "(\<Sum>c<N. A ! (r + c * N) * ?y ! c)
        = (\<Sum>c<N. A ! (r + c * N) * ?x ! c) + (\<Sum>c<N. A ! (r + c * N) * v ! c)"
      by (simp add: algebra_simps sum.distrib)
    then show ?thesis using gesv_solves [OF g that] assms(4) that by simp
  qed
  then have "?y = ?x" using gesv_unique [OF g ly] by simp
  then have "?y ! c0 = ?x ! c0" by simp
  then show False using assms(2,3) by simp
qed

lemma gram_double_sym: "gram double_ops mem st a b = gram double_ops mem st b a"
  by (simp add: gram_def gterm_def InnerProd_double_commute [of _ "metric mem st a _"])

lemma gram_cong_right:
  assumes "\<forall>i<nMat st. metric mem st j i = metric mem st k i"
  shows "gram ops mem st a j = gram ops mem st a k"
  using assms by (simp add: gram_sum gterm_def)

lemma identical_columns:
  assumes "j < nExtrap st" and "k < nExtrap st" and "r \<le> nExtrap st"
    and "\<forall>i<nMat st. metric mem st j i = metric mem st k i"
  shows "assemble double_ops mem st ! (r + j * (nExtrap st + 1))
       = assemble double_ops mem st ! (r + k * (nExtrap st + 1))"
proof -
  have "gram double_ops mem st r j = gram double_ops mem st r k"
    using gram_cong_right [OF assms(4)] .
  moreover have "gram double_ops mem st j r = gram double_ops mem st r j"
    "gram double_ops mem st k r = gram double_ops mem st r k"
    by (rule gram_double_sym)+
  ultimately show ?thesis
    using assemble_nth [of r st j double_ops mem] assemble_nth [of r st k double_ops mem] assms(1-3)
    by auto
qed

lemma identical_slots_fail:
  assumes "j < k" and "k < nExtrap st"
    and "\<forall>i<nMat st. metric mem st j i = metric mem st k i"
  shows "fst (gesv double_ops (nExtrap st + 1) (assemble double_ops mem st) b) \<noteq> 0"
proof -
  define N where "N = nExtrap st + 1"
  let ?A = "assemble double_ops mem st"
  define v where "v = map (\<lambda>c. if c = j then 1 else if c = k then - 1 else (0::real)) [0..<N]"
  have j: "j < N" "k < N" "j < nExtrap st" "j \<noteq> k" using assms by (simp_all add: N_def)
  have lv: "length v = N" by (simp add: v_def)
  have vn: "v ! c = (if c = j then 1 else if c = k then - 1 else 0)" if "c < N" for c
    using that by (simp add: v_def)
  have "(\<Sum>c<N. ?A ! (r + c * N) * v ! c) = 0" if "r < N" for r
  proof -
    have "(\<Sum>c<N. ?A ! (r + c * N) * v ! c)
        = (\<Sum>c<N. (if c = j then ?A ! (r + c * N) else 0) - (if c = k then ?A ! (r + c * N) else 0))"
      using j vn by (intro sum.cong) auto
    also have "\<dots> = ?A ! (r + j * N) - ?A ! (r + k * N)"
      using j by (simp add: sum_subtractf)
    also have "\<dots> = 0"
      using identical_columns [OF j(3) assms(2) _ assms(3), of r] that by (simp add: N_def)
    finally show ?thesis .
  qed
  then have "fst (gesv double_ops N ?A b) \<noteq> 0"
    using singular_fails [OF lv j(1), of ?A double_ops b] vn [OF j(1)] by simp
  then show ?thesis by (simp add: N_def)
qed

lemma rows_single:
  fixes st :: "'a::field DIIS"
  assumes "nExtrap st = 1"
  shows "rows_of 2 (assemble ops mem st) (rhs 1)
       = [([gram ops mem st 0 0, - 1], 0), ([- 1, 0], - 1)]"
proof -
  have "assemble ops mem st ! (0 + 0 * 2) = gram ops mem st 0 0"
    "assemble ops mem st ! (0 + 1 * 2) = - 1"
    "assemble ops mem st ! (1 + 0 * 2) = - 1"
    "assemble ops mem st ! (1 + 1 * 2) = 0"
    using assemble_nth [of 0 st 0 ops mem] assemble_nth [of 0 st 1 ops mem]
      assemble_nth [of 1 st 0 ops mem] assemble_nth [of 1 st 1 ops mem] assms
    by simp_all
  moreover have "(rhs 1 :: 'a list) ! 0 = 0" "(rhs 1 :: 'a list) ! 1 = - 1"
    by (simp_all add: rhs_def)
  moreover have "[0..<2] = [0, 1]" by (simp add: upt_rec)
  ultimately show ?thesis by (simp add: rows_of_def)
qed

lemma gesv_single:
  fixes st :: "'a::field DIIS"
  assumes "nExtrap st = 1"
    and "smag ops (- 1) \<le> smag ops (gram ops mem st 0 0) \<Longrightarrow> gram ops mem st 0 0 \<noteq> 0"
  shows "gesv ops 2 (assemble ops mem st) (rhs 1) = (0, [1, gram ops mem st 0 0])"
proof (cases "smag ops (- 1) \<le> smag ops (gram ops mem st 0 0)")
  case True
  then have "gram ops mem st 0 0 \<noteq> 0" by (rule assms(2))
  then show ?thesis using True unfolding gesv_def rows_single [OF assms(1)]
    by (simp add: Let_def lead_def reduce_def dot_def)
next
  case False
  then show ?thesis unfolding gesv_def rows_single [OF assms(1)]
    by (simp add: Let_def lead_def reduce_def dot_def)
qed

lemma run_single:
  fixes st :: "'a::field DIIS"
  assumes "nExtrap st = 1" and "readable mem st" and "length (coeffs st) = 2"
    and "smag ops (- 1) \<le> smag ops (gram ops mem st 0 0) \<Longrightarrow> gram ops mem st 0 0 \<noteq> 0"
  shows "extrapolate ops mem st = Some (True, st\<lparr>coeffs := [1, gram ops mem st 0 0]\<rparr>, mem)"
proof -
  have "gesv ops (nExtrap st + 1) (assemble ops mem st) (rhs (nExtrap st))
      = (0, [1, gram ops mem st 0 0])"
    using gesv_single [OF assms(1,4)] assms(1) by (simp add: numeral_2_eq_2)
  then show ?thesis
    using run_built [OF assms(2), of ops 0 "[1, gram ops mem st 0 0]"] assms(1,3) by simp
qed

text \<open>
  One slot, in exact arithmetic: with \<open>nExtrap = 1\<close> the system is
  \<open>[[g, -1], [-1, 0]] x = [0, -1]\<close> for the Gram entry \<open>g\<close>, and elimination on
  exact scalars returns true with \<open>coeffs = [1, g]\<close>, for real and for complex scalars.
  This says nothing of a run in which \<open>g\<close> overflows or the solve rounds.
\<close>

lemma single_slot_exact:
  fixes st :: "real DIIS" and stc :: "complex DIIS"
  shows "(nExtrap st = 1 \<and> readable mem st \<and> length (coeffs st) = 2
          \<longrightarrow> (\<exists>st'. extrapolate double_ops mem st = Some (True, st', mem)
                    \<and> coeffs st' ! 0 = 1))
       \<and> (nExtrap stc = 1 \<and> readable memc stc \<and> length (coeffs stc) = 2
          \<longrightarrow> (\<exists>st'. extrapolate dcomplex_ops memc stc = Some (True, st', memc)
                    \<and> coeffs st' ! 0 = 1))"
proof (intro conjI impI; elim conjE)
  assume a: "nExtrap st = 1" "readable mem st" "length (coeffs st) = 2"
  have "gram double_ops mem st 0 0 \<noteq> 0"
    if "smag double_ops (- 1) \<le> smag double_ops (gram double_ops mem st 0 0)"
    using that by (auto simp: double_ops_def)
  from run_single [OF a this]
  show "\<exists>st'. extrapolate double_ops mem st = Some (True, st', mem) \<and> coeffs st' ! 0 = 1"
    by simp
next
  assume a: "nExtrap stc = 1" "readable memc stc" "length (coeffs stc) = 2"
  have "gram dcomplex_ops memc stc 0 0 \<noteq> 0"
    if "smag dcomplex_ops (- 1) \<le> smag dcomplex_ops (gram dcomplex_ops memc stc 0 0)"
    using that by (auto simp: dcomplex_ops_def)
  from run_single [OF a this]
  show "\<exists>st'. extrapolate dcomplex_ops memc stc = Some (True, st', memc) \<and> coeffs st' ! 0 = 1"
    by simp
qed

lemma st_ci_fields: "nExtrap st_ci = 1" "length (coeffs st_ci) = 2"
  by (simp_all add: st_ci_def DIIS_new_def)

lemma readable_one: "readable mem_one st_one"
  by code_simp

lemma readable_ci: "readable mem_ci st_ci"
  by code_simp

lemma single_slot_exact_example:
  "nExtrap st_one = 1 \<and> readable mem_one st_one \<and> length (coeffs st_one) = 2
   \<and> metric mem_one st_one 0 0 = [1]
   \<and> nExtrap st_ci = 1 \<and> readable mem_ci st_ci \<and> length (coeffs st_ci) = 2
   \<and> metric mem_ci st_ci 0 0 = [\<i>]
   \<and> (\<exists>st'. extrapolate double_ops mem_one st_one = Some (True, st', mem_one) \<and> coeffs st' ! 0 = 1)
   \<and> (\<exists>st'. extrapolate dcomplex_ops mem_ci st_ci = Some (True, st', mem_ci) \<and> coeffs st' ! 0 = 1)"
proof -
  have l: "length (coeffs st_one) = 2" using st_one_fields by simp
  have m: "metric mem_one st_one 0 0 = [1]" "metric mem_ci st_ci 0 0 = [\<i>]"
    by (simp_all add: metric_def st_one_def st_ci_def DIIS_new_def mem_one_def mem_ci_def)
  show ?thesis
    using single_slot_exact [of st_one mem_one st_ci mem_ci]
      st_one_fields(1) readable_one l st_ci_fields readable_ci m
    by blast
qed














section \<open>SCF options: equivalences of the controls\<close>

text \<open>
  C10 (amended).  If \<open>CQSCFOptions\<close> returns normally and the input has an \<open>SCF\<close>
  section (or the controls satisfied both implications before the call), then afterwards
  \<open>dampStartParam = 0\<close> implies that \<open>doDamp\<close> is false, and \<open>doDamp\<close> false with
  \<open>diisAlg = NONE\<close> implies that \<open>doExtrap\<close> is false.
\<close>

theorem CQSCFOptions_equivalences:
  assumes "CQSCFOptions split stod input ss pert = Inr (ss', pert')"
    and "containsSection input ''SCF''
         \<or> ((dampStartParam ss = 0 \<longrightarrow> \<not> doDamp ss)
            \<and> (\<not> doDamp ss \<and> diisAlg ss = NONE \<longrightarrow> \<not> doExtrap ss))"
  shows "(dampStartParam ss' = 0 \<longrightarrow> \<not> doDamp ss')
       \<and> (\<not> doDamp ss' \<and> diisAlg ss' = NONE \<longrightarrow> \<not> doExtrap ss')"
proof (cases "containsSection input ''SCF''")
  case False
  then have "ss' = ss" using assms(1) by (simp add: CQSCFOptions_def)
  then show ?thesis using assms(2) False by simp
next
  case True
  then show ?thesis using assms(1)
    by (auto simp: CQSCFOptions_def Let_def split: sum.splits if_splits)
qed

theorem CQSCFOptions_equivalences_witness:
  "CQSCFOptions (\<lambda>s. []) (\<lambda>s. None) input_scf ss_damp0 []
     = Inr (ss_damp0\<lparr>doExtrap := False, diisAlg := NONE, doDamp := False\<rparr>, [])
   \<and> containsSection input_scf ''SCF''
   \<and> dampStartParam (ss_damp0\<lparr>doExtrap := False, diisAlg := NONE, doDamp := False\<rparr>) = 0
   \<and> \<not> doDamp (ss_damp0\<lparr>doExtrap := False, diisAlg := NONE, doDamp := False\<rparr>)
   \<and> diisAlg (ss_damp0\<lparr>doExtrap := False, diisAlg := NONE, doDamp := False\<rparr>) = NONE
   \<and> \<not> doExtrap (ss_damp0\<lparr>doExtrap := False, diisAlg := NONE, doDamp := False\<rparr>)"
proof -
  have r: "CQSCFOptions (\<lambda>s. []) (\<lambda>s. None) input_scf ss_damp0 []
     = Inr (ss_damp0\<lparr>doExtrap := False, diisAlg := NONE, doDamp := False\<rparr>, [])"
    by (simp add: CQSCFOptions_def handleField_def OPTOPT_def input_scf_def ss_damp0_def)
  have c: "containsSection input_scf ''SCF''" by (simp add: input_scf_def)
  have d: "dampStartParam (ss_damp0\<lparr>doExtrap := False, diisAlg := NONE, doDamp := False\<rparr>) = 0"
    "diisAlg (ss_damp0\<lparr>doExtrap := False, diisAlg := NONE, doDamp := False\<rparr>) = NONE"
    by (simp_all add: ss_damp0_def)
  show ?thesis
    using CQSCFOptions_equivalences [OF r disjI1 [OF c]] r c d by blast
qed

theorem no_section_counterexample:
  "CQSCFOptions (\<lambda>s. []) (\<lambda>s. None) input_empty ss_damp0 [] = Inr (ss_damp0, [])
   \<and> dampStartParam ss_damp0 = 0 \<and> doDamp ss_damp0"
  by (simp add: CQSCFOptions_def input_empty_def ss_damp0_def)

end
